theory Spec2Isabelle
  imports Main "HOL-Library.Char_ord" "HOL-Library.List_Lexorder"
begin

section \<open>Propositional resolution (lab02-logic/PS5/src/main.py)\<close>

text \<open>
  The development embeds the three classes of \<^verbatim>\<open>main.py\<close>: \<^verbatim>\<open>Literal\<close>,
  \<^verbatim>\<open>Clause\<close> and \<^verbatim>\<open>KnowledgeBase\<close>. A Python \<^verbatim>\<open>str\<close> is a \<open>string\<close> whose
  characters are code points below 256, compared by code point as Python does. The only
  exception the code can raise on its own is the \<^verbatim>\<open>IndexError\<close> of a string index out
  of range in \<^verbatim>\<open>Literal.parse\<close>.
\<close>

datatype error = IndexError

subsection \<open>Literal\<close>

text \<open>\<^verbatim>\<open>Literal.__init__(symbol, negated)\<close>: the two fields of the class.\<close>

datatype Literal = Literal (symbol: string) (negated: bool)

text \<open>\<^verbatim>\<open>Literal.__repr__\<close>.\<close>

definition Literal_repr :: "Literal \<Rightarrow> string" where
  "Literal_repr self = (if negated self then ''-'' @ symbol self else symbol self)"

text \<open>
  \<^verbatim>\<open>Literal.__eq__\<close> compares both fields, which is the equality of the datatype.
  \<^verbatim>\<open>Literal.__lt__\<close> is the order \<open><\<close> of the type: the symbols decide when they
  differ, otherwise the flags (\<open>False < True\<close>). Python defines no \<^verbatim>\<open>__le__\<close>;
  \<open>\<le>\<close> is the reflexive closure, which \<^verbatim>\<open>sorted\<close> never asks for.
\<close>

instantiation Literal :: linorder
begin

definition less_Literal :: "Literal \<Rightarrow> Literal \<Rightarrow> bool" where
  "less_Literal self other =
     (if symbol self \<noteq> symbol other then symbol self < symbol other
      else negated self < negated other)"

definition less_eq_Literal :: "Literal \<Rightarrow> Literal \<Rightarrow> bool" where
  "less_eq_Literal self other = (self < other \<or> self = other)"

instance
proof
  fix x y z :: Literal
  show "(x < y) = (x \<le> y \<and> \<not> y \<le> x)"
    by (cases x; cases y) (auto simp: less_Literal_def less_eq_Literal_def)
  show "x \<le> x"
    by (simp add: less_eq_Literal_def)
  show "x \<le> y \<Longrightarrow> y \<le> z \<Longrightarrow> x \<le> z"
    by (cases x; cases y; cases z)
       (auto simp: less_Literal_def less_eq_Literal_def split: if_splits)
  show "x \<le> y \<Longrightarrow> y \<le> x \<Longrightarrow> x = y"
    by (cases x; cases y) (auto simp: less_Literal_def less_eq_Literal_def split: if_splits)
  show "x \<le> y \<or> y \<le> x"
    by (cases x; cases y) (auto simp: less_Literal_def less_eq_Literal_def)
qed

end

text \<open>\<^verbatim>\<open>Literal.negate\<close> flips the flag in place; the model returns the new value.\<close>

definition negate :: "Literal \<Rightarrow> Literal" where
  "negate self = Literal (symbol self) (\<not> negated self)"

text \<open>\<^verbatim>\<open>Literal.is_complement\<close>.\<close>

definition is_complement :: "Literal \<Rightarrow> Literal \<Rightarrow> bool" where
  "is_complement self other = (negated self \<noteq> negated other \<and> symbol self = symbol other)"

text \<open>
  \<^verbatim>\<open>Literal.parse\<close> reads \<^verbatim>\<open>literal_str[0]\<close> and, after a dash,
  \<^verbatim>\<open>literal_str[1]\<close>; either index raises \<^verbatim>\<open>IndexError\<close> when the string is too
  short. The symbol is the one character read.
\<close>

fun Literal_parse :: "string \<Rightarrow> error + Literal" where
  "Literal_parse [] = Inl IndexError"
| "Literal_parse (c # cs) =
     (if c = CHR ''-''
      then (case cs of [] \<Rightarrow> Inl IndexError | d # _ \<Rightarrow> Inr (Literal [d] True))
      else Inr (Literal [c] False))"

subsection \<open>Clause\<close>

text \<open>\<^verbatim>\<open>Clause.__init__\<close>: the one field \<^verbatim>\<open>literals\<close>, a list.\<close>

datatype Clause = Clause (literals: "Literal list")

text \<open>\<^verbatim>\<open>Clause.__eq__\<close> compares the sets of literals.\<close>

definition Clause_eq :: "Clause \<Rightarrow> Clause \<Rightarrow> bool" where
  "Clause_eq self other = (set (literals self) = set (literals other))"

text \<open>
  \<^verbatim>\<open>Literal.__hash__\<close> and \<^verbatim>\<open>Clause.__hash__\<close> call the built-in \<^verbatim>\<open>hash\<close> on
  the representation string and on the tuple of the literals. The built-in is not
  part of the program: \<open>str_hash\<close> stands for its value on a string and
  \<open>tuple_hash\<close> for its value on a tuple, as a function of the hashes of the
  elements.
\<close>

definition Literal_hash :: "(string \<Rightarrow> int) \<Rightarrow> Literal \<Rightarrow> int" where
  "Literal_hash str_hash self = str_hash (Literal_repr self)"

definition Clause_hash :: "(string \<Rightarrow> int) \<Rightarrow> (int list \<Rightarrow> int) \<Rightarrow> Clause \<Rightarrow> int" where
  "Clause_hash str_hash tuple_hash self = tuple_hash (map (Literal_hash str_hash) (literals self))"

text \<open>\<^verbatim>\<open>Clause.is_empty\<close> and \<^verbatim>\<open>Clause.add_literal\<close>.\<close>

definition is_empty :: "Clause \<Rightarrow> bool" where
  "is_empty self = (length (literals self) = 0)"

definition add_literal :: "Clause \<Rightarrow> Literal \<Rightarrow> Clause" where
  "add_literal self literal = Clause (literals self @ [literal])"

text \<open>
  \<^verbatim>\<open>Clause.refactor\<close>: \<^verbatim>\<open>sorted(set(self.literals))\<close>. The order of \<^verbatim>\<open>Literal\<close> is
  linear, so the sorted list of a set of literals is unique whatever order the set
  is iterated in.
\<close>

definition refactor :: "Clause \<Rightarrow> Clause" where
  "refactor self = Clause (sorted_list_of_set (set (literals self)))"

text \<open>
  \<^verbatim>\<open>Clause.is_always_true\<close> scans the pairs of neighbours
  \<^verbatim>\<open>literals[i]\<close>, \<^verbatim>\<open>literals[i + 1]\<close> from the left and returns at the first
  complementary pair.
\<close>

fun adjacent_complement :: "Literal list \<Rightarrow> bool" where
  "adjacent_complement (x # y # zs) =
     (if is_complement x y then True else adjacent_complement (y # zs))"
| "adjacent_complement _ = False"

definition is_always_true :: "Clause \<Rightarrow> bool" where
  "is_always_true self = adjacent_complement (literals self)"

text \<open>\<^verbatim>\<open>Clause.merge\<close> and \<^verbatim>\<open>Clause.clone_without\<close> build a new clause and refactor it.\<close>

definition merge :: "Clause \<Rightarrow> Clause \<Rightarrow> Clause" where
  "merge self other = refactor (Clause (literals self @ literals other))"

definition clone_without :: "Clause \<Rightarrow> Literal \<Rightarrow> Clause" where
  "clone_without self literal =
     refactor (fold (\<lambda>l new_clause. if l \<noteq> literal then add_literal new_clause l else new_clause)
       (literals self) (Clause []))"

text \<open>
  \<^verbatim>\<open>str.split(" OR ")\<close>: the pieces between the occurrences of the separator, found
  from the left without overlap; a string without the separator, the empty string
  too, is one piece.
\<close>

function split_OR :: "string \<Rightarrow> string list" where
  "split_OR [] = [[]]"
| "split_OR (c # cs) =
     (if take 4 (c # cs) = '' OR '' then [] # split_OR (drop 4 (c # cs))
      else (case split_OR cs of [] \<Rightarrow> [[c]] | piece # pieces \<Rightarrow> (c # piece) # pieces))"
  by pat_completeness auto
termination
  by (relation "measure length") auto

text \<open>
  \<^verbatim>\<open>str.strip()\<close> removes the leading and trailing characters for which
  \<^verbatim>\<open>str.isspace\<close> holds; below 256 these are the code points 9 to 13, 28 to 32,
  133 and 160.
\<close>

definition isspace :: "char \<Rightarrow> bool" where
  "isspace c =
     (let n = (of_char c :: nat)
      in (9 \<le> n \<and> n \<le> 13) \<or> (28 \<le> n \<and> n \<le> 32) \<or> n = 133 \<or> n = 160)"

definition strip :: "string \<Rightarrow> string" where
  "strip s = rev (dropWhile isspace (rev (dropWhile isspace s)))"

text \<open>
  \<^verbatim>\<open>Clause.parse\<close>: every piece is stripped and parsed in turn, the first
  \<^verbatim>\<open>IndexError\<close> ends the call; the clause is refactored at the end.
\<close>

fun parse_pieces :: "string list \<Rightarrow> Clause \<Rightarrow> error + Clause" where
  "parse_pieces [] clause = Inr clause"
| "parse_pieces (literal_str # rest) clause =
     (case Literal_parse (strip literal_str) of
        Inl e \<Rightarrow> Inl e
      | Inr literal \<Rightarrow> parse_pieces rest (add_literal clause literal))"

definition Clause_parse :: "string \<Rightarrow> error + Clause" where
  "Clause_parse clause_str =
     (case parse_pieces (split_OR clause_str) (Clause []) of
        Inl e \<Rightarrow> Inl e
      | Inr clause \<Rightarrow> Inr (refactor clause))"

text \<open>
  \<^verbatim>\<open>Clause.pl_resolve\<close>: two nested loops without a break over the literals of both
  clauses. The state of the loops is the set \<^verbatim>\<open>resolvents\<close> and the flag
  \<^verbatim>\<open>has_empty_clause\<close>. Every resolvent comes out of \<^verbatim>\<open>merge\<close>, so it is refactored:
  on such clauses \<^verbatim>\<open>__eq__\<close> and \<^verbatim>\<open>__hash__\<close> agree with equality of the literal
  lists, and a Python set of them is a set of clauses.
\<close>

definition resolve_step ::
  "Clause \<Rightarrow> Clause \<Rightarrow> Literal \<Rightarrow> Literal \<Rightarrow> Clause set \<times> bool \<Rightarrow> Clause set \<times> bool" where
  "resolve_step self other literal1 literal2 st =
     (if is_complement literal1 literal2
      then (let clause1 = clone_without self literal1;
                clause2 = clone_without other literal2;
                resolvent = merge clause1 clause2
            in if is_always_true resolvent then st
               else (insert resolvent (fst st), (if is_empty resolvent then True else snd st)))
      else st)"

definition pl_resolve :: "Clause \<Rightarrow> Clause \<Rightarrow> Clause set \<times> bool" where
  "pl_resolve self other =
     fold (\<lambda>literal1. fold (\<lambda>literal2. resolve_step self other literal1 literal2) (literals other))
       (literals self) ({}, False)"

subsection \<open>KnowledgeBase\<close>

text \<open>
  \<^verbatim>\<open>self.clauses\<close> is a Python list object, which \<^verbatim>\<open>add_clause\<close> appends to in
  place and which \<^verbatim>\<open>pl_resolution\<close> copies. List objects live in a store: a heap is
  the sequence of the list objects allocated so far, an address is an index into it,
  and a \<^verbatim>\<open>KnowledgeBase\<close> holds the address of its list. The clauses in the lists
  are values: on a clause it did not build itself, the code of this class calls only
  \<^verbatim>\<open>pl_resolve\<close>, \<^verbatim>\<open>__eq__\<close> and \<^verbatim>\<open>__hash__\<close>, which assign no field of the
  clause. An address is valid in a heap when it is below the length of the heap;
  allocation returns the next address and keeps every list that is there.
\<close>

type_synonym addr = nat

type_synonym heap = "Clause list list"

definition alloc :: "heap \<Rightarrow> Clause list \<Rightarrow> heap \<times> addr" where
  "alloc h xs = (h @ [xs], length h)"

definition list_append :: "heap \<Rightarrow> addr \<Rightarrow> Clause \<Rightarrow> heap" where
  "list_append h a x = h[a := h ! a @ [x]]"

datatype KnowledgeBase = KnowledgeBase (clauses: addr)

text \<open>\<^verbatim>\<open>KnowledgeBase.__init__\<close> and \<^verbatim>\<open>KnowledgeBase.add_clause\<close>.\<close>

definition KnowledgeBase_init :: "heap \<Rightarrow> heap \<times> KnowledgeBase" where
  "KnowledgeBase_init h = (case alloc h [] of (h', a) \<Rightarrow> (h', KnowledgeBase a))"

definition add_clause :: "heap \<Rightarrow> KnowledgeBase \<Rightarrow> Clause \<Rightarrow> heap" where
  "add_clause h self clause = list_append h (clauses self) clause"

text \<open>
  \<^verbatim>\<open>KnowledgeBase.parse\<close>: a new knowledge base, then one clause parsed, refactored
  again and added for every string; an \<^verbatim>\<open>IndexError\<close> of \<^verbatim>\<open>Clause.parse\<close> ends the
  call.
\<close>

fun parse_clauses :: "string list \<Rightarrow> KnowledgeBase \<Rightarrow> heap \<Rightarrow> error + heap" where
  "parse_clauses [] kb h = Inr h"
| "parse_clauses (clause_str # rest) kb h =
     (case Clause_parse clause_str of
        Inl e \<Rightarrow> Inl e
      | Inr clause \<Rightarrow> parse_clauses rest kb (add_clause h kb (refactor clause)))"

definition KnowledgeBase_parse :: "heap \<Rightarrow> string list \<Rightarrow> error + heap \<times> KnowledgeBase" where
  "KnowledgeBase_parse h strs =
     (case KnowledgeBase_init h of (h', kb) \<Rightarrow>
        (case parse_clauses strs kb h' of Inl e \<Rightarrow> Inl e | Inr h'' \<Rightarrow> Inr (h'', kb)))"

text \<open>
  Step 1 of \<^verbatim>\<open>pl_resolution\<close>, the loop over the pieces of \<^verbatim>\<open>alpha\<close>: the literal is
  parsed and negated, put into a clause of its own, and the clause is appended to the
  list at address \<open>a\<close> unless the list holds a clause equal to it by
  \<^verbatim>\<open>Clause.__eq__\<close>. The heap comes back with the error when a piece raises.
\<close>

fun negate_alpha :: "string list \<Rightarrow> addr \<Rightarrow> heap \<Rightarrow> heap \<times> error option" where
  "negate_alpha [] a h = (h, None)"
| "negate_alpha (literal_str # rest) a h =
     (case Literal_parse (strip literal_str) of
        Inl e \<Rightarrow> (h, Some e)
      | Inr literal \<Rightarrow>
          (let clause = add_literal (Clause []) (negate literal)
           in negate_alpha rest a
                (if \<exists>c \<in> set (h ! a). Clause_eq c clause then h else list_append h a clause)))"

text \<open>
  Step 2.1, one round. The inner loop over \<^verbatim>\<open>clause2\<close> adds the resolvents to
  \<^verbatim>\<open>new_clauses\<close> and breaks after the first pair with an empty resolvent; the outer
  loop over \<^verbatim>\<open>clause1\<close> goes on. Both loops iterate the same set object, in the
  same order \<open>cs\<close>.
\<close>

fun pl_inner :: "Clause \<Rightarrow> Clause list \<Rightarrow> Clause set \<times> bool \<Rightarrow> Clause set \<times> bool" where
  "pl_inner clause1 [] st = st"
| "pl_inner clause1 (clause2 # rest) st =
     (case pl_resolve clause1 clause2 of (resolvents, has_empty_clause) \<Rightarrow>
        if has_empty_clause then (fst st \<union> resolvents, True)
        else pl_inner clause1 rest (fst st \<union> resolvents, snd st))"

definition pl_round :: "Clause list \<Rightarrow> bool \<Rightarrow> Clause set \<times> bool" where
  "pl_round cs is_unsatisfiable = fold (\<lambda>clause1. pl_inner clause1 cs) cs ({}, is_unsatisfiable)"

text \<open>
  Python iterates a set in an order that depends on the hashes. The order is a
  parameter \<open>ord\<close> of the model: any function that lists every finite set without
  repetition. The working set grows from round to round, so no set is iterated in
  two rounds of a run, and a function of the set covers every order Python may take.
\<close>

definition iteration_order :: "(Clause set \<Rightarrow> Clause list) \<Rightarrow> bool" where
  "iteration_order ord = (\<forall>S. finite S \<longrightarrow> set (ord S) = S \<and> distinct (ord S))"

text \<open>
  Step 2, the \<^verbatim>\<open>while True\<close> loop over the set \<^verbatim>\<open>clauses\<close>, the list \<^verbatim>\<open>output\<close>
  and the flag \<^verbatim>\<open>is_unsatisfiable\<close>. \<open>None\<close> is a loop that never returns.
\<close>

partial_function (option) pl_loop ::
  "(Clause set \<Rightarrow> Clause list) \<Rightarrow> Clause set \<Rightarrow> Clause set list \<Rightarrow> bool
     \<Rightarrow> (bool \<times> Clause set list) option" where
  [code]: "pl_loop ord clauses_set output is_unsatisfiable =
     (let round = pl_round (ord clauses_set) is_unsatisfiable;
          new_clauses = fst round;
          is_unsatisfiable' = snd round;
          output' = output @ [new_clauses - clauses_set]
      in if is_unsatisfiable' then Some (True, output')
         else if new_clauses \<subseteq> clauses_set then Some (False, output')
         else pl_loop ord (clauses_set \<union> new_clauses) output' is_unsatisfiable')"

text \<open>
  \<^verbatim>\<open>KnowledgeBase.pl_resolution\<close>: the copy of \<^verbatim>\<open>self.clauses\<close> is a new list
  object, step 1 appends to it, and step 2 runs on the set of its elements. The
  clauses of a knowledge base built by \<^verbatim>\<open>KnowledgeBase.parse\<close> are refactored and
  the clauses of step 1 hold one literal, so \<^verbatim>\<open>set(clauses)\<close> identifies exactly
  the clauses with the same list of literals. The result is the heap after the call
  with either the error raised or the pair returned.
\<close>

definition pl_resolution ::
  "(Clause set \<Rightarrow> Clause list) \<Rightarrow> heap \<Rightarrow> KnowledgeBase \<Rightarrow> string
     \<Rightarrow> (heap \<times> (error + bool \<times> Clause set list)) option" where
  "pl_resolution ord h self alpha =
     (case alloc h (h ! clauses self) of (h1, a) \<Rightarrow>
        (case negate_alpha (split_OR alpha) a h1 of
           (h2, Some e) \<Rightarrow> Some (h2, Inl e)
         | (h2, None) \<Rightarrow>
             map_option (\<lambda>r. (h2, Inr r)) (pl_loop ord (set (h2 ! a)) [] False)))"

subsection \<open>Notions of the termination argument\<close>

text \<open>
  The literals that occur in a set of clauses, and the refactored clauses over a set
  of literals: the sorted lists of its subsets.
\<close>

definition lits :: "Clause set \<Rightarrow> Literal set" where
  "lits S = (\<Union>c \<in> S. set (literals c))"

definition canonical_over :: "Literal set \<Rightarrow> Clause set" where
  "canonical_over L = (\<lambda>A. Clause (sorted_list_of_set A)) ` Pow L"

section \<open>Properties\<close>

subsection \<open>Canonical clauses\<close>

lemma literals_refactor: "set (literals (refactor c)) = set (literals c)"
  by (simp add: refactor_def)

lemma refactor_eq_iff: "Clause_eq (refactor a) (refactor b) \<Longrightarrow> refactor a = refactor b"
  by (simp add: Clause_eq_def refactor_def)

text \<open>
  C7. Canonicalisation is idempotent: refactoring a refactored clause leaves its
  literal sequence as it is.
\<close>

theorem refactor_idempotent: "refactor (refactor c) = refactor c"
  by (simp add: refactor_def)

text \<open>
  C10. On refactored clauses \<^verbatim>\<open>__eq__\<close> implies equal hashes: two refactored
  clauses with the same set of literals have the same list of literals, and the hash
  is a function of that list.
\<close>

theorem hash_eq_consistent:
  "Clause_eq (refactor a) (refactor b) \<Longrightarrow>
   Clause_hash str_hash tuple_hash (refactor a) = Clause_hash str_hash tuple_hash (refactor b)"
  by (drule refactor_eq_iff) simp

theorem hash_eq_consistent_witness:
  "Clause_eq (refactor (Clause [Literal ''B'' False, Literal ''A'' True]))
     (refactor (Clause [Literal ''A'' True, Literal ''B'' False, Literal ''A'' True])) \<and>
   Clause_hash (\<lambda>s. int (length s)) sum_list
     (refactor (Clause [Literal ''B'' False, Literal ''A'' True])) =
   Clause_hash (\<lambda>s. int (length s)) sum_list
     (refactor (Clause [Literal ''A'' True, Literal ''B'' False, Literal ''A'' True]))"
proof -
  have e: "Clause_eq (refactor (Clause [Literal ''B'' False, Literal ''A'' True]))
     (refactor (Clause [Literal ''A'' True, Literal ''B'' False, Literal ''A'' True]))"
    by (auto simp: Clause_eq_def literals_refactor)
  show ?thesis
    using e hash_eq_consistent [OF e, of "\<lambda>s. int (length s)" sum_list] by simp
qed

subsection \<open>Tautologies\<close>

lemma between_complements: "is_complement a b \<Longrightarrow> a < c \<Longrightarrow> c \<le> b \<Longrightarrow> c = b"
  by (cases a; cases b; cases c)
     (auto simp: is_complement_def less_Literal_def less_eq_Literal_def split: if_splits)

lemma is_complement_sym: "is_complement a b = is_complement b a"
  by (auto simp: is_complement_def)

text \<open>
  In a strictly sorted list nothing stands between a literal and its complement, so
  the scan of the neighbours meets the pair.
\<close>

lemma adjacent_complement_sorted:
  "sorted_wrt (<) xs \<Longrightarrow> a \<in> set xs \<Longrightarrow> b \<in> set xs \<Longrightarrow> is_complement a b \<Longrightarrow> a < b \<Longrightarrow>
   adjacent_complement xs"
proof (induction xs rule: adjacent_complement.induct)
  case (1 x y zs)
  show ?case
  proof (cases "is_complement x y")
    case True
    then show ?thesis by simp
  next
    case False
    have "b \<noteq> x" using 1 by auto
    have "a \<noteq> x"
    proof
      assume "a = x"
      then have "x < y" "y \<le> b" using 1 \<open>b \<noteq> x\<close> by auto
      then have "y = b" using between_complements[of a b y] 1 \<open>a = x\<close> by simp
      then show False using False 1 \<open>a = x\<close> by simp
    qed
    then show ?thesis using 1 False \<open>b \<noteq> x\<close> by auto
  qed
qed auto

text \<open>
  C8. Tautology soundness: a clause that holds a literal and its complement is
  reported always true by the scan of neighbours once it is refactored.
\<close>

theorem tautology_after_refactor:
  "x \<in> set (literals c) \<Longrightarrow> y \<in> set (literals c) \<Longrightarrow> is_complement x y \<Longrightarrow>
   is_always_true (refactor c)"
proof -
  assume x: "x \<in> set (literals c)" and y: "y \<in> set (literals c)" and c: "is_complement x y"
  let ?xs = "sorted_list_of_set (set (literals c))"
  have s: "sorted_wrt (<) ?xs" and m: "set ?xs = set (literals c)"
    by simp_all
  have "x \<noteq> y" using c by (auto simp: is_complement_def)
  then consider "x < y" | "y < x" using linorder_neqE by blast
  then have "adjacent_complement ?xs"
  proof cases
    case 1
    then show ?thesis using adjacent_complement_sorted[OF s, of x y] x y c m by simp
  next
    case 2
    then show ?thesis
      using adjacent_complement_sorted[OF s, of y x] x y c m is_complement_sym by simp
  qed
  then show ?thesis by (simp add: is_always_true_def refactor_def)
qed

theorem tautology_after_refactor_witness:
  "Literal ''A'' True \<in> set (literals (Clause [Literal ''A'' True, Literal ''B'' False, Literal ''A'' False])) \<and>
   Literal ''A'' False \<in> set (literals (Clause [Literal ''A'' True, Literal ''B'' False, Literal ''A'' False])) \<and>
   is_complement (Literal ''A'' True) (Literal ''A'' False) \<and>
   is_always_true (refactor (Clause [Literal ''A'' True, Literal ''B'' False, Literal ''A'' False]))"
  using tautology_after_refactor
    [of "Literal ''A'' True" "Clause [Literal ''A'' True, Literal ''B'' False, Literal ''A'' False]"
        "Literal ''A'' False"]
  by (simp add: is_complement_def)

subsection \<open>Resolvents\<close>

lemma fold_invariant:
  "(\<And>x s. x \<in> set xs \<Longrightarrow> P s \<Longrightarrow> P (f x s)) \<Longrightarrow> P s \<Longrightarrow> P (fold f xs s)"
  by (induction xs arbitrary: s) auto

lemma resolve_step_no_tautology:
  "\<forall>c \<in> fst st. \<not> is_always_true c \<Longrightarrow>
   \<forall>c \<in> fst (resolve_step a b l1 l2 st). \<not> is_always_true c"
  by (auto simp: resolve_step_def Let_def)

lemma pl_resolve_no_tautology_aux: "\<forall>c \<in> fst (pl_resolve a b). \<not> is_always_true c"
  unfolding pl_resolve_def
  by (rule fold_invariant, rule fold_invariant, rule resolve_step_no_tautology) auto

text \<open>
  C2. No clause of the resolvent set returned by \<^verbatim>\<open>pl_resolve\<close> is always true:
  a tautological resolvent is skipped before it is added.
\<close>

theorem pl_resolve_no_tautology: "c \<in> fst (pl_resolve a b) \<Longrightarrow> \<not> is_always_true c"
  using pl_resolve_no_tautology_aux by blast

theorem pl_resolve_no_tautology_witness:
  "Clause [Literal ''B'' False]
     \<in> fst (pl_resolve (Clause [Literal ''A'' False, Literal ''B'' False]) (Clause [Literal ''A'' True])) \<and>
   \<not> is_always_true (Clause [Literal ''B'' False])"
proof -
  have m: "Clause [Literal ''B'' False]
     \<in> fst (pl_resolve (Clause [Literal ''A'' False, Literal ''B'' False]) (Clause [Literal ''A'' True]))"
    by code_simp
  show ?thesis
    using m pl_resolve_no_tautology [OF m] by simp
qed

subsection \<open>Parsing\<close>

text \<open>
  C3, as the code has it. \<^verbatim>\<open>Clause.parse\<close> of the empty text raises
  \<^verbatim>\<open>IndexError\<close>: the split yields the one empty piece, and \<^verbatim>\<open>Literal.parse\<close>
  indexes it at 0.
\<close>

theorem Clause_parse_empty_raises: "Clause_parse [] = Inl IndexError"
  by (simp add: Clause_parse_def strip_def)

text \<open>C3 as stated fails: the empty text does not parse to the empty clause.\<close>

theorem Clause_parse_empty_not_empty_clause: "Clause_parse [] \<noteq> Inr (Clause [])"
  by (simp add: Clause_parse_def strip_def)

text \<open>
  C4, as the code has it. On a text that has a character after the optional leading
  dash, \<^verbatim>\<open>Literal.parse\<close> returns a literal that is negated iff the text starts
  with the dash and whose symbol is that one character; what follows it is dropped.
\<close>

theorem Literal_parse_first_char:
  "s \<noteq> [] \<Longrightarrow> s \<noteq> ''-'' \<Longrightarrow>
   Literal_parse s =
     Inr (Literal [if hd s = CHR ''-'' then s ! 1 else s ! 0] (hd s = CHR ''-''))"
  by (cases s) (auto split: list.splits)

theorem Literal_parse_first_char_witness:
  "''-AB'' \<noteq> [] \<and> ''-AB'' \<noteq> ''-'' \<and> Literal_parse ''-AB'' = Inr (Literal ''A'' True)"
  using Literal_parse_first_char [of "''-AB''"] by simp

text \<open>C4 as stated fails: the symbol parsed from \<^verbatim>\<open>-AB\<close> is not \<^verbatim>\<open>AB\<close>.\<close>

theorem Literal_parse_dash_AB: "Literal_parse ''-AB'' \<noteq> Inr (Literal ''AB'' True)"
  by simp

text \<open>The lone dash has no character for the symbol: \<^verbatim>\<open>literal_str[1]\<close> raises.\<close>

lemma Literal_parse_dash: "Literal_parse ''-'' = Inl IndexError"
  by simp

subsection \<open>One round\<close>

text \<open>
  What a round computes does not depend on the order of iteration beyond the break:
  the flag is set iff some pair of clauses has an empty resolvent, the new clauses
  are resolvents of pairs, and they are all of them when no flag is set.
\<close>

lemma pl_inner_snd:
  "snd (pl_inner c1 cs st) = (snd st \<or> (\<exists>c2 \<in> set cs. snd (pl_resolve c1 c2)))"
  by (induction cs arbitrary: st) (auto split: prod.splits)

lemma pl_inner_fst_subset:
  "fst (pl_inner c1 cs st) \<subseteq> fst st \<union> (\<Union>c2 \<in> set cs. fst (pl_resolve c1 c2))"
proof (induction cs arbitrary: st)
  case (Cons c2 cs)
  show ?case using Cons[of "(fst st \<union> fst (pl_resolve c1 c2), snd st)"]
    by (auto split: prod.splits)
qed simp

lemma pl_inner_fst_no_empty:
  "\<forall>c2 \<in> set cs. \<not> snd (pl_resolve c1 c2) \<Longrightarrow>
   fst (pl_inner c1 cs st) = fst st \<union> (\<Union>c2 \<in> set cs. fst (pl_resolve c1 c2))"
proof (induction cs arbitrary: st)
  case (Cons c2 cs)
  show ?case using Cons.prems Cons.IH[of "(fst st \<union> fst (pl_resolve c1 c2), snd st)"]
    by (auto split: prod.splits)
qed simp

lemma pl_outer_snd:
  "snd (fold (\<lambda>c1. pl_inner c1 cs) xs st) =
     (snd st \<or> (\<exists>c1 \<in> set xs. \<exists>c2 \<in> set cs. snd (pl_resolve c1 c2)))"
  by (induction xs arbitrary: st) (auto simp: pl_inner_snd)

lemma pl_outer_fst_subset:
  "fst (fold (\<lambda>c1. pl_inner c1 cs) xs st) \<subseteq>
     fst st \<union> (\<Union>c1 \<in> set xs. \<Union>c2 \<in> set cs. fst (pl_resolve c1 c2))"
proof (induction xs arbitrary: st)
  case (Cons c1 xs)
  show ?case using Cons[of "pl_inner c1 cs st"] pl_inner_fst_subset[of c1 cs st]
    by auto
qed simp

lemma pl_outer_fst_no_empty:
  "\<forall>c1 \<in> set xs. \<forall>c2 \<in> set cs. \<not> snd (pl_resolve c1 c2) \<Longrightarrow>
   fst (fold (\<lambda>c1. pl_inner c1 cs) xs st) =
     fst st \<union> (\<Union>c1 \<in> set xs. \<Union>c2 \<in> set cs. fst (pl_resolve c1 c2))"
proof (induction xs arbitrary: st)
  case (Cons c1 xs)
  show ?case using Cons.prems Cons.IH[of "pl_inner c1 cs st"] pl_inner_fst_no_empty[of cs c1 st]
    by auto
qed simp

lemma pl_round_snd:
  "snd (pl_round cs u) = (u \<or> (\<exists>c1 \<in> set cs. \<exists>c2 \<in> set cs. snd (pl_resolve c1 c2)))"
  by (simp add: pl_round_def pl_outer_snd)

lemma pl_round_fst_subset:
  "fst (pl_round cs u) \<subseteq> (\<Union>c1 \<in> set cs. \<Union>c2 \<in> set cs. fst (pl_resolve c1 c2))"
  using pl_outer_fst_subset[of cs cs "({}, u)"] by (simp add: pl_round_def)

lemma pl_round_fst_no_empty:
  "\<not> snd (pl_round cs u) \<Longrightarrow>
   fst (pl_round cs u) = (\<Union>c1 \<in> set cs. \<Union>c2 \<in> set cs. fst (pl_resolve c1 c2))"
  using pl_outer_fst_no_empty[of cs cs "({}, u)"] by (simp add: pl_round_def pl_outer_snd)



text \<open>One concrete order of iteration, for the runs on concrete inputs.\<close>

lemma iteration_order_sorted:
  "iteration_order (\<lambda>S. map Clause (sorted_list_of_set (literals ` S)))"
  by (auto simp: iteration_order_def distinct_map inj_on_def image_image)

subsection \<open>The saturation loop\<close>

text \<open>
  C5. A round that derives no empty clause, so that \<^verbatim>\<open>is_unsatisfiable\<close> is still
  false after it, and whose new clauses are all in the working set ends the loop: the
  result is \<open>False\<close> with the trace extended by the round's difference set.
\<close>

theorem pl_loop_saturated:
  "\<not> snd (pl_round (ord S) u) \<Longrightarrow> fst (pl_round (ord S) u) \<subseteq> S \<Longrightarrow>
   pl_loop ord S out u = Some (False, out @ [fst (pl_round (ord S) u) - S])"
  by (subst pl_loop.simps) (simp add: Let_def)

theorem pl_loop_saturated_witness:
  "\<not> snd (pl_round ((\<lambda>S. map Clause (sorted_list_of_set (literals ` S)))
       {Clause [Literal ''A'' False]}) False) \<and>
   fst (pl_round ((\<lambda>S. map Clause (sorted_list_of_set (literals ` S)))
       {Clause [Literal ''A'' False]}) False) \<subseteq> {Clause [Literal ''A'' False]} \<and>
   pl_loop (\<lambda>S. map Clause (sorted_list_of_set (literals ` S)))
     {Clause [Literal ''A'' False]} [] False = Some (False, [{}])"
proof -
  have r: "pl_round [Clause [Literal ''A'' False]] False = ({}, False)"
    by code_simp
  show ?thesis
    using pl_loop_saturated
      [of "\<lambda>S. map Clause (sorted_list_of_set (literals ` S))"
          "{Clause [Literal ''A'' False]}" False "[]"]
    by (simp add: r)
qed

lemma pl_loop_refuted:
  assumes "iteration_order ord" "finite S" "\<exists>c1 \<in> S. \<exists>c2 \<in> S. snd (pl_resolve c1 c2)"
  shows "pl_loop ord S out u = Some (True, out @ [fst (pl_round (ord S) u) - S])"
proof -
  have "set (ord S) = S" using assms by (simp add: iteration_order_def)
  then have "snd (pl_round (ord S) u)" using assms(3) by (simp add: pl_round_snd)
  then show ?thesis by (subst pl_loop.simps) (simp add: Let_def)
qed

lemma pl_loop_continues:
  assumes "iteration_order ord" "finite S" "\<not> (\<exists>c1 \<in> S. \<exists>c2 \<in> S. snd (pl_resolve c1 c2))"
    and "N = (\<Union>c1 \<in> S. \<Union>c2 \<in> S. fst (pl_resolve c1 c2))" "\<not> N \<subseteq> S"
  shows "pl_loop ord S out False = pl_loop ord (S \<union> N) (out @ [N - S]) False"
proof -
  have o: "set (ord S) = S" using assms by (simp add: iteration_order_def)
  then have s: "\<not> snd (pl_round (ord S) False)" using assms(3) by (simp add: pl_round_snd)
  then have "fst (pl_round (ord S) False) = N"
    using pl_round_fst_no_empty[of "ord S" False] o assms(4) by simp
  then show ?thesis using s assms(5) by (subst pl_loop.simps) (simp add: Let_def)
qed

subsection \<open>Termination\<close>

text \<open>
  Every resolvent is a refactored clause over the literals of its parents, so a round
  adds only clauses of the finite set \<open>canonical_over (lits S)\<close> and leaves
  \<open>lits S\<close> as it is. A round that neither returns adds a clause that was not
  there, so the number of clauses of that set outside the working set goes down.
\<close>

lemma literals_clone_fold:
  "literals (fold (\<lambda>l new_clause. if l \<noteq> literal then add_literal new_clause l else new_clause) xs acc)
     = literals acc @ filter (\<lambda>l. l \<noteq> literal) xs"
  by (induction xs arbitrary: acc) (auto simp: add_literal_def)

lemma literals_clone_without:
  "literals (clone_without c l) = sorted_list_of_set (set (literals c) - {l})"
proof -
  have "set (filter (\<lambda>x. x \<noteq> l) (literals c)) = set (literals c) - {l}" by auto
  then show ?thesis by (simp add: clone_without_def refactor_def literals_clone_fold)
qed

lemma merge_clones:
  "merge (clone_without a l1) (clone_without b l2) =
     Clause (sorted_list_of_set ((set (literals a) - {l1}) \<union> (set (literals b) - {l2})))"
  by (simp add: merge_def refactor_def literals_clone_without)

lemma resolve_step_canonical:
  "fst st \<subseteq> canonical_over L \<Longrightarrow> set (literals a) \<union> set (literals b) \<subseteq> L \<Longrightarrow>
   fst (resolve_step a b l1 l2 st) \<subseteq> canonical_over L"
  by (auto simp: resolve_step_def Let_def merge_clones canonical_over_def)

lemma pl_resolve_canonical:
  "set (literals a) \<union> set (literals b) \<subseteq> L \<Longrightarrow> fst (pl_resolve a b) \<subseteq> canonical_over L"
  unfolding pl_resolve_def
  by (rule fold_invariant, rule fold_invariant, rule resolve_step_canonical) auto

lemma pl_round_canonical: "fst (pl_round cs u) \<subseteq> canonical_over (lits (set cs))"
proof -
  have "fst (pl_resolve c1 c2) \<subseteq> canonical_over (lits (set cs))"
    if "c1 \<in> set cs" "c2 \<in> set cs" for c1 c2
    using that by (intro pl_resolve_canonical) (auto simp: lits_def)
  then show ?thesis using pl_round_fst_subset[of cs u] by blast
qed

lemma finite_lits: "finite S \<Longrightarrow> finite (lits S)"
  by (simp add: lits_def)

lemma finite_canonical_over: "finite L \<Longrightarrow> finite (canonical_over L)"
  by (simp add: canonical_over_def)

lemma lits_canonical_over: "finite L \<Longrightarrow> N \<subseteq> canonical_over L \<Longrightarrow> lits N \<subseteq> L"
proof -
  assume f: "finite L" and n: "N \<subseteq> canonical_over L"
  have "set (literals c) \<subseteq> L" if cn: "c \<in> N" for c
  proof -
    obtain A where "A \<subseteq> L" "c = Clause (sorted_list_of_set A)"
      using n cn by (auto simp: canonical_over_def)
    moreover have "finite A" using \<open>A \<subseteq> L\<close> f by (rule finite_subset)
    ultimately show ?thesis by simp
  qed
  then show ?thesis by (auto simp: lits_def)
qed

lemma lits_Un: "lits (S \<union> N) = lits S \<union> lits N"
  by (auto simp: lits_def)

lemma measure_decreases:
  assumes "finite S" "N \<subseteq> canonical_over (lits S)" "\<not> N \<subseteq> S"
  shows "card (canonical_over (lits (S \<union> N)) - (S \<union> N)) < card (canonical_over (lits S) - S)"
proof -
  have "lits N \<subseteq> lits S"
    using assms(1,2) by (intro lits_canonical_over finite_lits)
  then have l: "lits (S \<union> N) = lits S" by (auto simp: lits_Un)
  obtain c where c: "c \<in> N" "c \<notin> S" using assms(3) by auto
  then have "c \<in> canonical_over (lits S) - S" "c \<notin> canonical_over (lits S) - (S \<union> N)"
    using assms(2) by auto
  then have "canonical_over (lits S) - (S \<union> N) \<subset> canonical_over (lits S) - S" by blast
  moreover have "finite (canonical_over (lits S) - S)"
    using assms(1) by (simp add: finite_canonical_over finite_lits)
  ultimately show ?thesis unfolding l by (rule psubset_card_mono[rotated])
qed

lemma pl_loop_halts:
  "iteration_order ord \<Longrightarrow> finite S \<Longrightarrow> \<exists>r. pl_loop ord S out u = Some r"
proof (induction "card (canonical_over (lits S) - S)" arbitrary: S out u rule: less_induct)
  case less
  let ?new = "fst (pl_round (ord S) u)"
  have o: "set (ord S) = S" using less.prems by (simp add: iteration_order_def)
  have n: "?new \<subseteq> canonical_over (lits S)" using pl_round_canonical[of "ord S" u] o by simp
  show ?case
  proof (cases "snd (pl_round (ord S) u) \<or> ?new \<subseteq> S")
    case True
    then show ?thesis by (subst pl_loop.simps) (auto simp: Let_def)
  next
    case False
    have "finite ?new"
      using n less.prems(2) by (meson finite_canonical_over finite_lits finite_subset)
    then have f: "finite (S \<union> ?new)" using less.prems(2) by simp
    have "card (canonical_over (lits (S \<union> ?new)) - (S \<union> ?new)) < card (canonical_over (lits S) - S)"
      using measure_decreases[OF less.prems(2) n] False by simp
    from less.hyps[OF this less.prems(1) f]
    show ?thesis using False by (subst pl_loop.simps) (simp add: Let_def)
  qed
qed


lemma negate_alpha_parses:
  "parse_pieces ps c = Inr c' \<Longrightarrow> snd (negate_alpha ps a h) = None"
  by (induction ps arbitrary: c h) (auto simp: Let_def split: sum.splits)

text \<open>
  C1. On a knowledge base parsed from clause strings and a well-formed query,
  \<^verbatim>\<open>pl_resolution\<close> halts: the loop returns a verdict, true or false, with its
  trace, whatever the order in which the sets are iterated. A string is well formed
  when \<^verbatim>\<open>Clause.parse\<close> accepts it; step 1 splits, strips and parses the query
  piece by piece as \<^verbatim>\<open>Clause.parse\<close> does.
\<close>

theorem pl_resolution_halts:
  assumes "iteration_order ord" "KnowledgeBase_parse h0 strs = Inr (h, kb)"
    and "Clause_parse alpha = Inr q"
  shows "\<exists>h' b trace. pl_resolution ord h kb alpha = Some (h', Inr (b, trace))"
proof -
  let ?h1 = "h @ [h ! clauses kb]"
  obtain c where "parse_pieces (split_OR alpha) (Clause []) = Inr c"
    using assms(3) by (auto simp: Clause_parse_def split: sum.splits)
  then have "snd (negate_alpha (split_OR alpha) (length h) ?h1) = None"
    by (rule negate_alpha_parses)
  then obtain h2 where n: "negate_alpha (split_OR alpha) (length h) ?h1 = (h2, None)"
    by (cases "negate_alpha (split_OR alpha) (length h) ?h1") auto
  obtain b trace where "pl_loop ord (set (h2 ! length h)) [] False = Some (b, trace)"
    using pl_loop_halts[OF assms(1), of "set (h2 ! length h)" "[]" False] by auto
  then show ?thesis by (simp add: pl_resolution_def alloc_def n)
qed

theorem pl_resolution_halts_witness:
  "iteration_order (\<lambda>S. map Clause (sorted_list_of_set (literals ` S))) \<and>
   KnowledgeBase_parse [] [''A OR B''] =
     Inr ([[Clause [Literal ''A'' False, Literal ''B'' False]]], KnowledgeBase 0) \<and>
   Clause_parse ''A'' = Inr (Clause [Literal ''A'' False]) \<and>
   (\<exists>h' b trace. pl_resolution (\<lambda>S. map Clause (sorted_list_of_set (literals ` S)))
      [[Clause [Literal ''A'' False, Literal ''B'' False]]] (KnowledgeBase 0) ''A'' =
        Some (h', Inr (b, trace)))"
proof -
  have k: "KnowledgeBase_parse [] [''A OR B''] =
     Inr ([[Clause [Literal ''A'' False, Literal ''B'' False]]], KnowledgeBase 0)"
    by code_simp
  have a: "Clause_parse ''A'' = Inr (Clause [Literal ''A'' False])"
    by code_simp
  show ?thesis
    using iteration_order_sorted k a pl_resolution_halts [OF iteration_order_sorted k a]
    by simp
qed

subsection \<open>Modus ponens\<close>

lemma kb_modus_ponens:
  "KnowledgeBase_parse [] [''A OR B'', ''-A''] =
     Inr ([[Clause [Literal ''A'' False, Literal ''B'' False], Clause [Literal ''A'' True]]],
          KnowledgeBase 0)"
  by code_simp

lemma round1_no_empty:
  "\<not> (\<exists>c1 \<in> {Clause [Literal ''A'' False, Literal ''B'' False], Clause [Literal ''A'' True], Clause [Literal ''B'' True]}.
      \<exists>c2 \<in> {Clause [Literal ''A'' False, Literal ''B'' False], Clause [Literal ''A'' True], Clause [Literal ''B'' True]}.
        snd (pl_resolve c1 c2))"
  by code_simp

lemma round1_new:
  "(\<Union>c1 \<in> {Clause [Literal ''A'' False, Literal ''B'' False], Clause [Literal ''A'' True], Clause [Literal ''B'' True]}.
      \<Union>c2 \<in> {Clause [Literal ''A'' False, Literal ''B'' False], Clause [Literal ''A'' True], Clause [Literal ''B'' True]}.
        fst (pl_resolve c1 c2)) = {Clause [Literal ''A'' False], Clause [Literal ''B'' False]}"
  by code_simp

lemma round2_empty: "snd (pl_resolve (Clause [Literal ''A'' False]) (Clause [Literal ''A'' True]))"
  by code_simp

lemma step1_modus_ponens:
  "negate_alpha (split_OR ''B'') (Suc 0)
     [[Clause [Literal ''A'' False, Literal ''B'' False], Clause [Literal ''A'' True]],
      [Clause [Literal ''A'' False, Literal ''B'' False], Clause [Literal ''A'' True]]] =
   ([[Clause [Literal ''A'' False, Literal ''B'' False], Clause [Literal ''A'' True]],
     [Clause [Literal ''A'' False, Literal ''B'' False], Clause [Literal ''A'' True], Clause [Literal ''B'' True]]], None)"
  by code_simp

text \<open>
  C6. For the premises \<^verbatim>\<open>A OR B\<close> and \<^verbatim>\<open>-A\<close> and the query \<^verbatim>\<open>B\<close>,
  \<^verbatim>\<open>pl_resolution\<close> returns true: the first round derives \<^verbatim>\<open>A\<close> and \<^verbatim>\<open>B\<close>
  and no empty clause, the second resolves \<^verbatim>\<open>A\<close> with \<^verbatim>\<open>-A\<close>.
\<close>

theorem modus_ponens_entailed:
  assumes "iteration_order ord"
  shows "\<exists>h kb h' trace.
     KnowledgeBase_parse [] [''A OR B'', ''-A''] = Inr (h, kb) \<and>
     pl_resolution ord h kb ''B'' = Some (h', Inr (True, trace))"
proof -
  let ?AB = "Clause [Literal ''A'' False, Literal ''B'' False]"
  let ?nA = "Clause [Literal ''A'' True]"
  let ?nB = "Clause [Literal ''B'' True]"
  let ?A = "Clause [Literal ''A'' False]"
  let ?B = "Clause [Literal ''B'' False]"
  let ?S1 = "{?AB, ?nA, ?nB}"
  let ?N = "{?A, ?B}"
  have "\<not> ?N \<subseteq> ?S1" by simp
  from pl_loop_continues[OF assms _ round1_no_empty round1_new[symmetric] this, of "[]"]
  have 1: "pl_loop ord ?S1 [] False = pl_loop ord (?S1 \<union> ?N) [?N - ?S1] False" by simp
  have "\<exists>c1 \<in> ?S1 \<union> ?N. \<exists>c2 \<in> ?S1 \<union> ?N. snd (pl_resolve c1 c2)"
    using round2_empty by blast
  from pl_loop_refuted[OF assms _ this, of "[?N - ?S1]" False]
  have 2: "\<exists>trace. pl_loop ord (?S1 \<union> ?N) [?N - ?S1] False = Some (True, trace)" by simp
  have 3: "set [?AB, ?nA, ?nB] = ?S1" by simp
  show ?thesis
    using 1 2 unfolding kb_modus_ponens
    by (auto simp: pl_resolution_def alloc_def step1_modus_ponens simp del: split_OR.simps)
qed


theorem modus_ponens_entailed_witness:
  "iteration_order (\<lambda>S. map Clause (sorted_list_of_set (literals ` S))) \<and>
   (\<exists>h kb h' trace.
     KnowledgeBase_parse [] [''A OR B'', ''-A''] = Inr (h, kb) \<and>
     pl_resolution (\<lambda>S. map Clause (sorted_list_of_set (literals ` S))) h kb ''B'' =
       Some (h', Inr (True, trace)))"
  using iteration_order_sorted modus_ponens_entailed [OF iteration_order_sorted] by simp

subsection \<open>The knowledge base after a query\<close>

text \<open>Step 1 writes to the list at its address only.\<close>

lemma negate_alpha_frame:
  "b \<noteq> a \<Longrightarrow> fst (negate_alpha ps a h) ! b = h ! b"
  by (induction ps arbitrary: h) (auto simp: Let_def list_append_def split: sum.splits)

text \<open>
  C9. \<^verbatim>\<open>pl_resolution\<close> does not mutate its knowledge base: in the heap after the
  call, whether it returned or raised, the list \<^verbatim>\<open>self.clauses\<close> is the list it was
  before. The appends of step 1 go to the copy.
\<close>

theorem pl_resolution_frame:
  assumes "pl_resolution ord h self alpha = Some (h', r)" "clauses self < length h"
  shows "h' ! clauses self = h ! clauses self"
proof -
  let ?h1 = "h @ [h ! clauses self]"
  let ?n = "negate_alpha (split_OR alpha) (length h) ?h1"
  have "h' = fst ?n"
    using assms(1) by (auto simp: pl_resolution_def alloc_def split: prod.splits option.splits)
  moreover have "fst ?n ! clauses self = ?h1 ! clauses self"
    using assms(2) by (intro negate_alpha_frame) simp
  ultimately show ?thesis using assms(2) by (simp add: nth_append)
qed

theorem pl_resolution_frame_witness:
  "pl_resolution (\<lambda>S. map Clause (sorted_list_of_set (literals ` S)))
     [[Clause [Literal ''A'' False, Literal ''B'' False]]] (KnowledgeBase 0) ''A'' =
     Some ([[Clause [Literal ''A'' False, Literal ''B'' False]],
            [Clause [Literal ''A'' False, Literal ''B'' False], Clause [Literal ''A'' True]]],
           Inr (False, [{Clause [Literal ''B'' False]}, {}])) \<and>
   clauses (KnowledgeBase 0) < length [[Clause [Literal ''A'' False, Literal ''B'' False]]] \<and>
   [[Clause [Literal ''A'' False, Literal ''B'' False]],
    [Clause [Literal ''A'' False, Literal ''B'' False], Clause [Literal ''A'' True]]] ! clauses (KnowledgeBase 0) =
   [[Clause [Literal ''A'' False, Literal ''B'' False]]] ! clauses (KnowledgeBase 0)"
proof -
  have p: "pl_resolution (\<lambda>S. map Clause (sorted_list_of_set (literals ` S)))
     [[Clause [Literal ''A'' False, Literal ''B'' False]]] (KnowledgeBase 0) ''A'' =
     Some ([[Clause [Literal ''A'' False, Literal ''B'' False]],
            [Clause [Literal ''A'' False, Literal ''B'' False], Clause [Literal ''A'' True]]],
           Inr (False, [{Clause [Literal ''B'' False]}, {}]))"
    by code_simp
  show ?thesis
    using p pl_resolution_frame [OF p] by simp
qed

text \<open>
  The knowledge base is reusable: the heap after a query has one more list, and a
  query on a heap that holds the same list at the address of the knowledge base gives
  the same result.
\<close>

lemma negate_alpha_length: "length (fst (negate_alpha ps a h)) = length h"
  by (induction ps arbitrary: h) (auto simp: Let_def list_append_def split: sum.splits)

lemma pl_resolution_heap_length:
  "pl_resolution ord h self alpha = Some (h', r) \<Longrightarrow> length h' = Suc (length h)"
proof -
  assume a: "pl_resolution ord h self alpha = Some (h', r)"
  let ?n = "negate_alpha (split_OR alpha) (length h) (h @ [h ! clauses self])"
  have "h' = fst ?n"
    using a by (auto simp: pl_resolution_def alloc_def split: prod.splits option.splits)
  then show ?thesis by (simp add: negate_alpha_length)
qed

lemma negate_alpha_cell:
  "a < length h \<Longrightarrow> a' < length h' \<Longrightarrow> h ! a = h' ! a' \<Longrightarrow>
   fst (negate_alpha ps a h) ! a = fst (negate_alpha ps a' h') ! a' \<and>
   snd (negate_alpha ps a h) = snd (negate_alpha ps a' h')"
proof (induction ps arbitrary: h h')
  case (Cons p ps)
  show ?case
  proof (cases "Literal_parse (strip p)")
    case (Inl e)
    then show ?thesis using Cons.prems by simp
  next
    case (Inr l)
    let ?c = "add_literal (Clause []) (negate l)"
    let ?g = "if \<exists>c \<in> set (h ! a). Clause_eq c ?c then h else list_append h a ?c"
    let ?g' = "if \<exists>c \<in> set (h' ! a'). Clause_eq c ?c then h' else list_append h' a' ?c"
    have "a < length ?g" "a' < length ?g'" "?g ! a = ?g' ! a'"
      using Cons.prems by (auto simp: list_append_def)
    from Cons.IH[OF this] show ?thesis using Inr by (simp add: Let_def)
  qed
qed simp

lemma pl_resolution_reusable:
  assumes "clauses self < length h" "clauses self < length h'"
    and "h' ! clauses self = h ! clauses self"
  shows "map_option snd (pl_resolution ord h' self alpha) =
         map_option snd (pl_resolution ord h self alpha)"
proof -
  let ?h1 = "h @ [h ! clauses self]" and ?h1' = "h' @ [h' ! clauses self]"
  let ?n = "negate_alpha (split_OR alpha) (length h) ?h1"
  let ?n' = "negate_alpha (split_OR alpha) (length h') ?h1'"
  have "length h < length ?h1" "length h' < length ?h1'" "?h1 ! length h = ?h1' ! length h'"
    using assms by simp_all
  from negate_alpha_cell[OF this, of "split_OR alpha"]
  have "fst ?n ! length h = fst ?n' ! length h'" "snd ?n = snd ?n'" by simp_all
  then show ?thesis
    by (cases ?n; cases ?n')
       (auto simp: pl_resolution_def alloc_def option.map_comp comp_def split: option.splits)
qed

end
